theory Spec2Isabelle
  imports Main "HOL-Library.Sublist"
begin

section \<open>Data model of the raft transport (storage/raft\_transport.go)\<close>

text \<open>
  Modelled from the spec: the message types of package raftpb, the request type
  RaftMessageRequest and roachpb.ReplicaDescriptor are declared outside
  storage/raft\_transport.go. The transport reads three things of a request: its
  destination \<open>ToReplica\<close> (with the destination's \<open>StoreID\<close> and \<open>NodeID\<close>), the
  message type \<open>Type\<close> (only compared with \<open>MsgSnap\<close>) and the addressee \<open>To\<close>
  that is printed in an error. The payload is opaque.
\<close>

datatype MessageType =
    MsgHup | MsgBeat | MsgProp | MsgApp | MsgAppResp | MsgVote | MsgVoteResp
  | MsgSnap | MsgHeartbeat | MsgHeartbeatResp | MsgUnreachable | MsgSnapStatus

record ReplicaDescriptor =
  NodeID :: int
  StoreID :: int
  ReplicaID :: int

record Message =
  Type :: MessageType
  To :: nat
  Payload :: "nat list"

record RaftMessageRequest =
  FromReplica :: ReplicaDescriptor
  ToReplica :: ReplicaDescriptor
  Message :: Message

text \<open>
  A Go \<open>error\<close> is an interface value that may be nil: \<open>error option\<close>, with
  \<open>None\<close> for nil. \<open>Errorf fmt n\<close> is the value of
  \<open>errors.Errorf(fmt, n)\<close>; every error produced by a collaborator (stream,
  resolver, dialer, task runner, handler) is \<open>External\<close>.
\<close>

datatype error = Errorf string nat | External string

type_synonym raftMessageHandler = "RaftMessageRequest \<Rightarrow> error option"

record RaftSnapshotStatus =
  Req :: RaftMessageRequest
  Err :: "error option"

definition raftSendBufferSize :: nat where
  "raftSendBufferSize = 100"

text \<open>
  The worker goroutine started by \<open>SendAsync\<close> runs
  \<open>s.onError(s.transport.processQueue(ch, toReplica), toReplica)\<close> and then
  deletes \<open>toReplica\<close> from the inner map \<open>queues\<close> it captured. Its control
  point is a \<open>phase\<close>: before the dial sequence of \<open>processQueue\<close>, inside its
  \<open>for\<close> loop, after \<open>processQueue\<close> returned a value, after \<open>onError\<close>
  returned, and after the \<open>delete\<close>.
\<close>

datatype phase = Starting | Looping | Returned "error option" | Reported | Finished

record worker =
  w_toReplica :: ReplicaDescriptor
  w_isSnap :: bool
  w_phase :: phase

text \<open>
  The transport. \<open>handlers\<close> and \<open>queues\<close> are the two maps guarded by
  \<open>t.mu\<close>; \<open>queues\<close> holds channel references, and the channels themselves live
  in the store \<open>chans\<close> (reference \<open>c\<close> is allocated when \<open>c = nchans\<close>), since
  a worker keeps the reference \<open>ch\<close> it was started with whatever the table says
  later. \<open>SnapshotStatusChan\<close> is the sequence of values sent on that channel.
  The remaining fields record what the run did: the workers by channel
  reference, the calls of \<open>onError\<close>, the calls of \<open>stream.Send\<close> with their
  results, and the requests that \<open>SendAsync\<close> placed on a channel.
\<close>

record RaftTransport =
  handlers :: "int \<rightharpoonup> raftMessageHandler"
  queues :: "bool \<rightharpoonup> (ReplicaDescriptor \<rightharpoonup> nat)"
  SnapshotStatusChan :: "RaftSnapshotStatus list"
  chans :: "nat \<Rightarrow> RaftMessageRequest list"
  nchans :: nat
  workers :: "nat \<rightharpoonup> worker"
  onError_calls :: "(error option \<times> ReplicaDescriptor) list"
  stream_sends :: "(nat \<times> RaftMessageRequest \<times> error option) list"
  enqueued :: "(nat \<times> RaftMessageRequest) list"

definition NewRaftTransport :: RaftTransport where
  "NewRaftTransport =
     \<lparr> handlers = Map.empty, queues = Map.empty, SnapshotStatusChan = [],
       chans = (\<lambda>_. []), nchans = 0, workers = Map.empty,
       onError_calls = [], stream_sends = [], enqueued = [] \<rparr>"

section \<open>Handler registry: Listen and Stop\<close>

definition Listen :: "int \<Rightarrow> raftMessageHandler \<Rightarrow> RaftTransport \<Rightarrow> RaftTransport" where
  "Listen storeID handler t = t\<lparr>handlers := (handlers t)(storeID \<mapsto> handler)\<rparr>"

definition Stop :: "int \<Rightarrow> RaftTransport \<Rightarrow> RaftTransport" where
  "Stop storeID t = t\<lparr>handlers := (handlers t)(storeID := None)\<rparr>"

section \<open>Inbound dispatcher: RaftMessage\<close>

text \<open>
  One call of \<open>stream.Recv()\<close> returns an error or a request. The read loop of
  \<open>RaftMessage\<close> runs over the successive results of \<open>Recv\<close>, each paired with
  the transport as it is when the loop takes \<open>t.mu\<close> for the lookup. The loop
  returns only through one of its three \<open>return\<close> statements, so its value on
  \<open>errCh\<close> is a non-nil error; \<open>None\<close> says that the loop is still blocked in
  \<open>Recv\<close> when the results run out and \<open>errCh\<close> stays empty. The second
  component lists the requests that were handed to a handler.
\<close>

datatype recv = RecvErr error | RecvReq RaftMessageRequest

fun read_loop ::
  "(RaftTransport \<times> recv) list \<Rightarrow> error option \<times> RaftMessageRequest list" where
  "read_loop [] = (None, [])"
| "read_loop ((t, RecvErr err) # rest) = (Some err, [])"
| "read_loop ((t, RecvReq req) # rest) =
     (case handlers t (StoreID (ToReplica req)) of
        None \<Rightarrow> (Some (Errorf ''Unable to proxy message to node: %d'' (To (Message req))), [])
      | Some handler \<Rightarrow>
          (case handler req of
             Some err \<Rightarrow> (Some err, [req])
           | None \<Rightarrow> (case read_loop rest of (r, hs) \<Rightarrow> (r, req # hs))))"

text \<open>
  \<open>RaftMessage\<close> first starts the read loop through \<open>Stopper.RunTask\<close> and
  returns the error if the task runner refuses. Its final \<open>select\<close> has two
  cases: a value on \<open>errCh\<close>, which is there once the read loop has returned,
  and the drain signal of the stopper. \<open>RaftMessage\<close> takes the result of
  \<open>RunTask\<close>, the results of \<open>Recv\<close>, the case the \<open>select\<close> takes and the
  result of \<open>stream.SendAndClose\<close>. It gives \<open>Blocked\<close> when the case on
  \<open>errCh\<close> is named while the read loop has not returned, and otherwise the
  error returned to the RPC layer together with the responses passed to
  \<open>SendAndClose\<close>.
\<close>

datatype select_RaftMessage = CaseErrCh | CaseShouldDrain

datatype RaftMessageResponse = RaftMessageResponse

datatype RaftMessage_result =
    Blocked
  | Return "error option" "RaftMessageResponse list"

definition RaftMessage ::
  "error option \<Rightarrow> (RaftTransport \<times> recv) list \<Rightarrow> select_RaftMessage \<Rightarrow>
   error option \<Rightarrow> RaftMessage_result" where
  "RaftMessage RunTask recvs taken SendAndClose =
     (case RunTask of
        Some err \<Rightarrow> Return (Some err) []
      | None \<Rightarrow>
          (case taken of
             CaseErrCh \<Rightarrow>
               (case fst (read_loop recvs) of
                  None \<Rightarrow> Blocked
                | Some err \<Rightarrow> Return (Some err) [])
           | CaseShouldDrain \<Rightarrow> Return SendAndClose [RaftMessageResponse]))"

section \<open>Outbound path: SendAsync\<close>

text \<open>
  \<open>SendAsync req RunTask t\<close> is one call of \<open>SendAsync\<close>; \<open>RunTask\<close> is what
  \<open>Stopper.RunTask\<close> returns if the call reaches it (\<open>None\<close>: the worker was
  started). Under \<open>t.mu\<close> the call looks up or creates the inner map of the
  traffic class and then the channel of the destination; \<open>ok\<close> is the result of
  the second lookup. Only a call that created the channel starts a worker or,
  when the task runner refuses, calls \<open>onError\<close>. The final \<open>select\<close> with a
  \<open>default\<close> case sends on the channel if its buffer has room and returns
  \<open>false\<close> otherwise.
\<close>

definition SendAsync ::
  "RaftMessageRequest \<Rightarrow> error option \<Rightarrow> RaftTransport \<Rightarrow> bool \<times> RaftTransport" where
  "SendAsync req RunTask t =
     (let isSnap = (Type (Message req) = MsgSnap);
          toReplica = ToReplica req;
          qs = (case queues t isSnap of None \<Rightarrow> Map.empty | Some q \<Rightarrow> q);
          ok = (qs toReplica \<noteq> None);
          ch = (case qs toReplica of None \<Rightarrow> nchans t | Some c \<Rightarrow> c);
          t1 = (if ok then t
                else t\<lparr>queues := (queues t)(isSnap \<mapsto> qs(toReplica \<mapsto> ch)),
                       chans := (chans t)(ch := []),
                       nchans := Suc (nchans t)\<rparr>);
          t2 = (if ok then t1
                else (case RunTask of
                        None \<Rightarrow>
                          t1\<lparr>workers := (workers t1)(ch \<mapsto>
                                \<lparr>w_toReplica = toReplica, w_isSnap = isSnap,
                                 w_phase = Starting\<rparr>)\<rparr>
                      | Some err \<Rightarrow>
                          t1\<lparr>onError_calls := onError_calls t1 @ [(Some err, toReplica)]\<rparr>))
      in if length (chans t2 ch) < raftSendBufferSize
         then (True, t2\<lparr>chans := (chans t2)(ch := chans t2 ch @ [req]),
                        enqueued := enqueued t2 @ [(ch, req)]\<rparr>)
         else (False, t2))"

section \<open>Outbound path: the worker and processQueue\<close>

text \<open>
  \<open>processQueue\<close> first resolves the address, dials, opens the stream and
  starts the task that reads the peer's response; each of the four can fail and
  the first failure is returned. \<open>processQueue_dial\<close> takes the four results
  and gives \<open>Some err\<close> when \<open>processQueue\<close> returns \<open>err\<close> there and \<open>None\<close>
  when it enters the loop.
\<close>

definition processQueue_dial ::
  "error option \<Rightarrow> error option \<Rightarrow> error option \<Rightarrow> error option \<Rightarrow> error option" where
  "processQueue_dial resolver GRPCDial client_RaftMessage RunTask =
     (case resolver of
        Some err \<Rightarrow> Some err
      | None \<Rightarrow>
          (case GRPCDial of
             Some err \<Rightarrow> Some err
           | None \<Rightarrow>
               (case client_RaftMessage of
                  Some err \<Rightarrow> Some err
                | None \<Rightarrow> RunTask)))"

text \<open>
  One iteration of the loop of \<open>processQueue\<close> is one \<open>select\<close>. The case taken
  and what the collaborators answer in it are the argument: the stop signal, the
  idle timer, a value \<open>err\<close> on \<open>errCh\<close> (the result of \<open>stream.RecvMsg\<close>, nil
  when the peer answered), or a request on \<open>ch\<close>. For a request, \<open>err\<close> is the
  result of \<open>stream.Send\<close>, and the inner \<open>select\<close>, entered for a \<open>MsgSnap\<close>
  request only, either sees the stop signal or completes the send on
  \<open>SnapshotStatusChan\<close>. The result is \<open>Some r\<close> when \<open>processQueue\<close> returns
  \<open>r\<close> and \<open>None\<close> when the loop goes round again. The case \<open>SelectCh\<close> cannot
  be taken on an empty channel: the state is then left as it is.
\<close>

datatype select_snapshot = SnapShouldStop | SnapPublish

datatype select_processQueue =
    SelectShouldStop
  | SelectIdleTimer
  | SelectErrCh "error option"
  | SelectCh "error option" select_snapshot

fun processQueue_select ::
  "nat \<Rightarrow> select_processQueue \<Rightarrow> RaftTransport \<Rightarrow> error option option \<times> RaftTransport" where
  "processQueue_select ch SelectShouldStop t = (Some None, t)"
| "processQueue_select ch SelectIdleTimer t = (Some None, t)"
| "processQueue_select ch (SelectErrCh err) t = (Some err, t)"
| "processQueue_select ch (SelectCh err snap) t =
     (case chans t ch of
        [] \<Rightarrow> (None, t)
      | req # rest \<Rightarrow>
          (let t1 = t\<lparr>chans := (chans t)(ch := rest),
                      stream_sends := stream_sends t @ [(ch, req, err)]\<rparr>
           in if Type (Message req) = MsgSnap
              then (case snap of
                      SnapShouldStop \<Rightarrow> (Some None, t1)
                    | SnapPublish \<Rightarrow>
                        (let t2 = t1\<lparr>SnapshotStatusChan :=
                                       SnapshotStatusChan t1 @ [\<lparr>Req = req, Err = err\<rparr>]\<rparr>
                         in if err \<noteq> None then (Some err, t2) else (None, t2)))
              else if err \<noteq> None then (Some err, t1) else (None, t1)))"

text \<open>
  The steps of the worker that owns channel \<open>ch\<close>. \<open>Dial\<close> runs the dial
  sequence, \<open>Select\<close> one iteration of the loop, \<open>OnError\<close> the call of
  \<open>s.onError\<close> with the value \<open>processQueue\<close> returned, and \<open>Delete\<close> the
  \<open>delete(queues, toReplica)\<close> under \<open>t.mu\<close>, on the inner map the closure
  captured. A step that does not fit the worker's phase, or names a channel
  without a worker, does nothing.
\<close>

datatype worker_event =
    Dial "error option" "error option" "error option" "error option"
  | Select select_processQueue
  | OnError
  | Delete

definition set_phase :: "nat \<Rightarrow> worker \<Rightarrow> phase \<Rightarrow> RaftTransport \<Rightarrow> RaftTransport" where
  "set_phase ch w p t = t\<lparr>workers := (workers t)(ch \<mapsto> w\<lparr>w_phase := p\<rparr>)\<rparr>"

definition worker_step :: "nat \<Rightarrow> worker_event \<Rightarrow> RaftTransport \<Rightarrow> RaftTransport" where
  "worker_step ch ev t =
     (case workers t ch of
        None \<Rightarrow> t
      | Some w \<Rightarrow>
          (case (w_phase w, ev) of
             (Starting, Dial r d c k) \<Rightarrow>
               (case processQueue_dial r d c k of
                  Some err \<Rightarrow> set_phase ch w (Returned (Some err)) t
                | None \<Rightarrow> set_phase ch w Looping t)
           | (Looping, Select sel) \<Rightarrow>
               (case processQueue_select ch sel t of
                  (Some r, t') \<Rightarrow> set_phase ch w (Returned r) t'
                | (None, t') \<Rightarrow> t')
           | (Returned r, OnError) \<Rightarrow>
               set_phase ch w Reported
                 (t\<lparr>onError_calls := onError_calls t @ [(r, w_toReplica w)]\<rparr>)
           | (Reported, Delete) \<Rightarrow>
               set_phase ch w Finished
                 (case queues t (w_isSnap w) of
                    None \<Rightarrow> t
                  | Some qs \<Rightarrow>
                      t\<lparr>queues := (queues t)(w_isSnap w \<mapsto> qs(w_toReplica w := None))\<rparr>)
           | _ \<Rightarrow> t))"

text \<open>
  A run of the transport is a sequence of calls of \<open>SendAsync\<close> and of worker
  steps, in the order in which they take effect. A call of \<open>SendAsync\<close> is
  taken as one step. The source releases \<open>t.mu\<close> before it starts the worker
  and before it sends on the channel, so other calls for the same key can send
  on a new channel before the call that created it does; the runs here do not
  contain such an overtaking, and what is said of the value returned by a call
  that creates a channel holds for a call that is not overtaken.
  \<open>SendAsync_returns\<close> gives the values the calls of \<open>SendAsync\<close> in a run
  returned.
\<close>

datatype event =
    Send RaftMessageRequest "error option"
  | Worker nat worker_event

fun step :: "event \<Rightarrow> RaftTransport \<Rightarrow> RaftTransport" where
  "step (Send req RunTask) t = snd (SendAsync req RunTask t)"
| "step (Worker ch ev) t = worker_step ch ev t"

fun run :: "event list \<Rightarrow> RaftTransport \<Rightarrow> RaftTransport" where
  "run [] t = t"
| "run (e # es) t = run es (step e t)"

fun SendAsync_returns :: "event list \<Rightarrow> RaftTransport \<Rightarrow> bool list" where
  "SendAsync_returns [] t = []"
| "SendAsync_returns (Send req RunTask # es) t =
     fst (SendAsync req RunTask t) # SendAsync_returns es (step (Send req RunTask) t)"
| "SendAsync_returns (Worker ch ev # es) t = SendAsync_returns es (step (Worker ch ev) t)"

text \<open>
  The channel that the queue table holds for a request's destination and
  traffic class, if any, and two projections of the records of a run: the
  requests a worker passed to \<open>stream.Send\<close> on its stream, and the requests
  \<open>SendAsync\<close> placed on a channel, both in order.
\<close>

definition queue_of :: "RaftTransport \<Rightarrow> bool \<Rightarrow> ReplicaDescriptor \<Rightarrow> nat option" where
  "queue_of t isSnap toReplica =
     (case queues t isSnap of None \<Rightarrow> None | Some qs \<Rightarrow> qs toReplica)"

definition sent_on :: "nat \<Rightarrow> RaftTransport \<Rightarrow> RaftMessageRequest list" where
  "sent_on ch t = map (\<lambda>(c, req, err). req) (filter (\<lambda>(c, req, err). c = ch) (stream_sends t))"

definition enqueued_on :: "nat \<Rightarrow> RaftTransport \<Rightarrow> RaftMessageRequest list" where
  "enqueued_on ch t = map snd (filter (\<lambda>(c, req). c = ch) (enqueued t))"

section \<open>Invariants of the outbound path\<close>

text \<open>
  Four properties hold in every state a run can reach. Every channel reference
  in the queue table or owned by a worker has been allocated. A worker that
  has not finished its \<open>delete\<close> is the worker of the channel that the table
  holds for its destination and class, so at most one such worker exists for a
  key. No channel holds more requests than \<open>raftSendBufferSize\<close>. And each
  channel is a queue: what its worker passed to \<open>stream.Send\<close>, followed by
  what the channel still holds, is what \<open>SendAsync\<close> placed on it.
\<close>

definition refs_ok :: "RaftTransport \<Rightarrow> bool" where
  "refs_ok t \<longleftrightarrow>
     (\<forall>b qs d c. queues t b = Some qs \<longrightarrow> qs d = Some c \<longrightarrow> c < nchans t)
   \<and> (\<forall>c w. workers t c = Some w \<longrightarrow> c < nchans t)"

definition live_ok :: "RaftTransport \<Rightarrow> bool" where
  "live_ok t \<longleftrightarrow>
     (\<forall>c w. workers t c = Some w \<longrightarrow> w_phase w \<noteq> Finished \<longrightarrow>
        queue_of t (w_isSnap w) (w_toReplica w) = Some c)"

definition cap_ok :: "RaftTransport \<Rightarrow> bool" where
  "cap_ok t \<longleftrightarrow> (\<forall>c. length (chans t c) \<le> raftSendBufferSize)"

definition fifo_ok :: "RaftTransport \<Rightarrow> bool" where
  "fifo_ok t \<longleftrightarrow>
     (\<forall>c. sent_on c t @ chans t c = enqueued_on c t)
   \<and> (\<forall>c. nchans t \<le> c \<longrightarrow> enqueued_on c t = [])"

definition invariant :: "RaftTransport \<Rightarrow> bool" where
  "invariant t \<longleftrightarrow> refs_ok t \<and> live_ok t \<and> cap_ok t \<and> fifo_ok t"

section \<open>Notions used in the statements\<close>

text \<open>
  \<open>queue_before t req\<close> is what the channel of the request's destination and
  class holds before a call (nothing when the table has no such channel).
  \<open>written\<close> lists the requests passed to \<open>stream.Send\<close> by all workers, in
  the order of the calls. \<open>other_key\<close> holds of every step but a \<open>SendAsync\<close>
  for the given class and destination, and \<open>not_worker ch\<close> of every step but
  those of the worker of channel \<open>ch\<close>. \<open>orphan ch\<close> says that the table holds
  channel \<open>ch\<close> for a key while no worker was started for it.
  \<open>snapshot_dequeue e t\<close> tells whether the step \<open>e\<close> in state \<open>t\<close> is a
  worker taking a \<open>MsgSnap\<close> request from its channel, and then gives the
  channel, the request, the result of \<open>stream.Send\<close> and the case that the
  inner \<open>select\<close> takes.
\<close>

definition queue_before :: "RaftTransport \<Rightarrow> RaftMessageRequest \<Rightarrow> RaftMessageRequest list" where
  "queue_before t req =
     (case queue_of t (Type (Message req) = MsgSnap) (ToReplica req) of
        None \<Rightarrow> [] | Some c \<Rightarrow> chans t c)"

definition written :: "RaftTransport \<Rightarrow> RaftMessageRequest list" where
  "written t = map (\<lambda>(c, req, err). req) (stream_sends t)"



definition orphan :: "nat \<Rightarrow> bool \<Rightarrow> ReplicaDescriptor \<Rightarrow> RaftTransport \<Rightarrow> bool" where
  "orphan ch isSnap toReplica t \<longleftrightarrow>
     queue_of t isSnap toReplica = Some ch \<and> workers t ch = None \<and> sent_on ch t = []"

definition snapshot_dequeue ::
  "event \<Rightarrow> RaftTransport \<Rightarrow> (nat \<times> RaftMessageRequest \<times> error option \<times> select_snapshot) option" where
  "snapshot_dequeue e t =
     (case e of
        Worker ch (Select (SelectCh err snap)) \<Rightarrow>
          (case workers t ch of
             None \<Rightarrow> None
           | Some w \<Rightarrow>
               (if w_phase w = Looping
                then (case chans t ch of
                        [] \<Rightarrow> None
                      | req # rest \<Rightarrow>
                          if Type (Message req) = MsgSnap then Some (ch, req, err, snap) else None)
                else None))
      | _ \<Rightarrow> None)"

section \<open>Concrete requests and runs\<close>

text \<open>
  Two destinations, requests to them (\<open>reqS\<close> is a snapshot), errors of the
  collaborators and a few runs, used where a theorem is applied to a concrete
  input.
\<close>

definition dest1 :: ReplicaDescriptor where "dest1 = \<lparr>NodeID = 1, StoreID = 1, ReplicaID = 1\<rparr>"

definition dest2 :: ReplicaDescriptor where "dest2 = \<lparr>NodeID = 2, StoreID = 2, ReplicaID = 2\<rparr>"

definition reqA :: RaftMessageRequest where
  "reqA = \<lparr>FromReplica = dest2, ToReplica = dest1, Message = \<lparr>Type = MsgApp, To = 1, Payload = []\<rparr>\<rparr>"

definition reqB :: RaftMessageRequest where
  "reqB = \<lparr>FromReplica = dest1, ToReplica = dest2, Message = \<lparr>Type = MsgApp, To = 2, Payload = []\<rparr>\<rparr>"

definition reqS :: RaftMessageRequest where
  "reqS = \<lparr>FromReplica = dest2, ToReplica = dest1, Message = \<lparr>Type = MsgSnap, To = 1, Payload = [7]\<rparr>\<rparr>"

definition stopping :: error where
  "stopping = External ''node is stopping''"

definition send_failed :: error where
  "send_failed = External ''stream closed''"

definition boom :: error where
  "boom = External ''handler failed''"

definition dial_ok :: worker_event where
  "dial_ok = Dial None None None None"

definition two_workers :: "RaftMessageRequest \<Rightarrow> RaftMessageRequest \<Rightarrow> event list" where
  "two_workers r0 r1 =
     [Send r0 None, Send r1 None,
      Worker 0 (Dial None None None None), Worker 1 (Dial None None None None)]"

definition full_queue :: RaftTransport where
  "full_queue = run (map (\<lambda>x. Send (fst x) (snd x)) (replicate 100 (reqA, None))) NewRaftTransport"

definition snapshot_queued :: RaftTransport where
  "snapshot_queued = run [Send reqS None, Worker 0 dial_ok] NewRaftTransport"

section \<open>Properties of the steps\<close>

lemma SendAsync_new:
  assumes "queue_of t (Type (Message req) = MsgSnap) (ToReplica req) = None"
  shows "SendAsync req rt t =
     (True, t\<lparr>queues := (queues t)((Type (Message req) = MsgSnap) \<mapsto>
                  (case queues t (Type (Message req) = MsgSnap) of None \<Rightarrow> Map.empty | Some q \<Rightarrow> q)
                    (ToReplica req \<mapsto> nchans t)),
              chans := (chans t)(nchans t := [req]),
              nchans := Suc (nchans t),
              workers := (case rt of None \<Rightarrow> (workers t)(nchans t \<mapsto>
                                \<lparr>w_toReplica = ToReplica req, w_isSnap = (Type (Message req) = MsgSnap),
                                 w_phase = Starting\<rparr>) | Some err \<Rightarrow> workers t),
              onError_calls := (case rt of None \<Rightarrow> onError_calls t
                                 | Some err \<Rightarrow> onError_calls t @ [(Some err, ToReplica req)]),
              enqueued := enqueued t @ [(nchans t, req)]\<rparr>)"
  using assms
  by (cases rt) (auto simp: SendAsync_def queue_of_def Let_def raftSendBufferSize_def split: option.splits)

lemma SendAsync_existing:
  assumes "queue_of t (Type (Message req) = MsgSnap) (ToReplica req) = Some c"
  shows "SendAsync req rt t =
     (if length (chans t c) < raftSendBufferSize
      then (True, t\<lparr>chans := (chans t)(c := chans t c @ [req]),
                     enqueued := enqueued t @ [(c, req)]\<rparr>)
      else (False, t))"
  using assms
  by (auto simp: SendAsync_def queue_of_def Let_def split: option.splits)

lemma queue_of_lt: "refs_ok t \<Longrightarrow> queue_of t b d = Some c \<Longrightarrow> c < nchans t"
  by (auto simp: refs_ok_def queue_of_def split: option.splits)

lemma queue_of_SendAsync_new:
  assumes "queue_of t (Type (Message req) = MsgSnap) (ToReplica req) = None"
  shows "queue_of (snd (SendAsync req rt t)) b d =
           (if b = (Type (Message req) = MsgSnap) \<and> d = ToReplica req
            then Some (nchans t) else queue_of t b d)"
  unfolding SendAsync_new [OF assms]
  by (auto simp: queue_of_def split: option.splits)

lemma SendAsync_new_fields:
  assumes "queue_of t (Type (Message req) = MsgSnap) (ToReplica req) = None"
  shows "fst (SendAsync req rt t)"
    and "chans (snd (SendAsync req rt t)) = (chans t)(nchans t := [req])"
    and "nchans (snd (SendAsync req rt t)) = Suc (nchans t)"
    and "workers (snd (SendAsync req rt t)) =
           (case rt of
              None \<Rightarrow> (workers t)(nchans t \<mapsto>
                        \<lparr>w_toReplica = ToReplica req, w_isSnap = (Type (Message req) = MsgSnap),
                         w_phase = Starting\<rparr>)
            | Some err \<Rightarrow> workers t)"
    and "onError_calls (snd (SendAsync req rt t)) =
           (case rt of None \<Rightarrow> onError_calls t
            | Some err \<Rightarrow> onError_calls t @ [(Some err, ToReplica req)])"
    and "enqueued (snd (SendAsync req rt t)) = enqueued t @ [(nchans t, req)]"
    and "stream_sends (snd (SendAsync req rt t)) = stream_sends t"
    and "SnapshotStatusChan (snd (SendAsync req rt t)) = SnapshotStatusChan t"
    and "handlers (snd (SendAsync req rt t)) = handlers t"
  unfolding SendAsync_new [OF assms] by simp_all

lemma SendAsync_existing_fields:
  assumes "queue_of t (Type (Message req) = MsgSnap) (ToReplica req) = Some c"
  shows "fst (SendAsync req rt t) = (length (chans t c) < raftSendBufferSize)"
    and "chans (snd (SendAsync req rt t)) =
           (if length (chans t c) < raftSendBufferSize
            then (chans t)(c := chans t c @ [req]) else chans t)"
    and "enqueued (snd (SendAsync req rt t)) =
           (if length (chans t c) < raftSendBufferSize
            then enqueued t @ [(c, req)] else enqueued t)"
    and "queues (snd (SendAsync req rt t)) = queues t"
    and "nchans (snd (SendAsync req rt t)) = nchans t"
    and "workers (snd (SendAsync req rt t)) = workers t"
    and "onError_calls (snd (SendAsync req rt t)) = onError_calls t"
    and "stream_sends (snd (SendAsync req rt t)) = stream_sends t"
    and "SnapshotStatusChan (snd (SendAsync req rt t)) = SnapshotStatusChan t"
    and "handlers (snd (SendAsync req rt t)) = handlers t"
  unfolding SendAsync_existing [OF assms] by simp_all

lemma queue_of_cong: "queues t' = queues t \<Longrightarrow> queue_of t' = queue_of t"
  by (simp add: queue_of_def fun_eq_iff)

text \<open>What one iteration of the loop changes.\<close>

lemma processQueue_select_cases:
  assumes "processQueue_select ch sel t = (r, t')"
  obtains
    (same) "t' = t"
  | (dequeue) req rest err snap where
      "sel = SelectCh err snap" "chans t ch = req # rest"
      "chans t' = (chans t)(ch := rest)"
      "stream_sends t' = stream_sends t @ [(ch, req, err)]"
      "SnapshotStatusChan t' =
         SnapshotStatusChan t @
           (if Type (Message req) = MsgSnap \<and> snap = SnapPublish
            then [\<lparr>Req = req, Err = err\<rparr>] else [])"
      "r = (if Type (Message req) = MsgSnap \<and> snap = SnapShouldStop then Some None
            else if err \<noteq> None then Some err else None)"
      "queues t' = queues t" "nchans t' = nchans t" "workers t' = workers t"
      "onError_calls t' = onError_calls t" "enqueued t' = enqueued t"
      "handlers t' = handlers t"
proof (cases sel)
  case (SelectCh err snap)
  show ?thesis
  proof (cases "chans t ch")
    case Nil
    with SelectCh assms have "t' = t" by simp
    then show ?thesis by (rule same)
  next
    case (Cons req rest)
    show ?thesis
      by (rule dequeue [of err snap req rest])
        (use SelectCh Cons assms in \<open>auto simp: Let_def split: select_snapshot.splits if_splits\<close>)
  qed
qed (use assms in \<open>auto intro: same\<close>)

text \<open>The enabled steps of a worker.\<close>

lemma worker_step_cases:
  obtains
    (skip) "worker_step ch ev t = t"
  | (dial) w r d c k where
      "workers t ch = Some w" "w_phase w = Starting" "ev = Dial r d c k"
      "worker_step ch ev t =
         set_phase ch w (case processQueue_dial r d c k of
                           Some err \<Rightarrow> Returned (Some err) | None \<Rightarrow> Looping) t"
  | (select) w sel r t' where
      "workers t ch = Some w" "w_phase w = Looping" "ev = Select sel"
      "processQueue_select ch sel t = (r, t')"
      "worker_step ch ev t = (case r of Some x \<Rightarrow> set_phase ch w (Returned x) t' | None \<Rightarrow> t')"
  | (onError) w r where
      "workers t ch = Some w" "w_phase w = Returned r" "ev = OnError"
      "worker_step ch ev t =
         set_phase ch w Reported (t\<lparr>onError_calls := onError_calls t @ [(r, w_toReplica w)]\<rparr>)"
  | (delete) w where
      "workers t ch = Some w" "w_phase w = Reported" "ev = Delete"
      "worker_step ch ev t =
         set_phase ch w Finished
           (case queues t (w_isSnap w) of
              None \<Rightarrow> t
            | Some qs \<Rightarrow> t\<lparr>queues := (queues t)(w_isSnap w \<mapsto> qs(w_toReplica w := None))\<rparr>)"
proof (cases "workers t ch")
  case None
  then show ?thesis by (intro skip) (simp add: worker_step_def)
next
  case (Some w)
  show ?thesis
  proof (cases "w_phase w")
    case Starting
    show ?thesis
    proof (cases ev)
      case (Dial r d c k)
      show ?thesis
        by (rule dial [OF Some Starting Dial])
          (simp add: worker_step_def Some Starting Dial split: option.splits)
    qed (simp_all add: skip worker_step_def Some Starting)
  next
    case Looping
    show ?thesis
    proof (cases ev)
      case (Select sel)
      obtain r t' where rt: "processQueue_select ch sel t = (r, t')"
        by (cases "processQueue_select ch sel t")
      show ?thesis
        by (rule select [OF Some Looping Select rt])
          (simp add: worker_step_def Some Looping Select rt split: option.splits)
    qed (simp_all add: skip worker_step_def Some Looping)
  next
    case (Returned r)
    show ?thesis
    proof (cases ev)
      case OnError
      show ?thesis
        by (rule onError [OF Some Returned OnError])
          (simp add: worker_step_def Some Returned OnError)
    qed (simp_all add: skip worker_step_def Some Returned)
  next
    case Reported
    show ?thesis
    proof (cases ev)
      case Delete
      show ?thesis
        by (rule delete [OF Some Reported Delete])
          (simp add: worker_step_def Some Reported Delete)
    qed (simp_all add: skip worker_step_def Some Reported)
  next
    case Finished
    show ?thesis
      by (rule skip) (cases ev; simp add: worker_step_def Some Finished)
  qed
qed

lemma set_phase_fields [simp]:
  "queues (set_phase ch w p t) = queues t"
  "chans (set_phase ch w p t) = chans t"
  "nchans (set_phase ch w p t) = nchans t"
  "workers (set_phase ch w p t) = (workers t)(ch \<mapsto> w\<lparr>w_phase := p\<rparr>)"
  "onError_calls (set_phase ch w p t) = onError_calls t"
  "stream_sends (set_phase ch w p t) = stream_sends t"
  "enqueued (set_phase ch w p t) = enqueued t"
  "SnapshotStatusChan (set_phase ch w p t) = SnapshotStatusChan t"
  "handlers (set_phase ch w p t) = handlers t"
  by (simp_all add: set_phase_def)

lemma queue_of_set_phase [simp]: "queue_of (set_phase ch w p t) = queue_of t"
  by (rule queue_of_cong) simp

lemma sent_on_set_phase [simp]: "sent_on c (set_phase ch w p t) = sent_on c t"
  by (simp add: sent_on_def)

lemma enqueued_on_set_phase [simp]: "enqueued_on c (set_phase ch w p t) = enqueued_on c t"
  by (simp add: enqueued_on_def)

subsection \<open>References are allocated\<close>

lemma refs_ok_Send: "refs_ok t \<Longrightarrow> refs_ok (snd (SendAsync req rt t))"
proof (cases "queue_of t (Type (Message req) = MsgSnap) (ToReplica req)")
  case None
  assume "refs_ok t"
  then show ?thesis
    unfolding SendAsync_new [OF None]
    by (cases rt) (auto simp: refs_ok_def less_Suc_eq split: option.splits if_splits)
next
  case (Some c)
  assume "refs_ok t"
  then show ?thesis
    unfolding SendAsync_existing [OF Some]
    by (auto simp: refs_ok_def)
qed

lemma refs_ok_Worker:
  assumes "refs_ok t"
  shows "refs_ok (worker_step ch ev t)"
proof (cases ch ev t rule: worker_step_cases)
  case skip
  with assms show ?thesis by simp
next
  case (dial w r d c k)
  with assms show ?thesis by (auto simp: refs_ok_def)
next
  case (select w sel r t')
  from select(4) have "refs_ok t'"
    by (cases rule: processQueue_select_cases) (use assms in \<open>auto simp: refs_ok_def\<close>)
  moreover from select(4) have "workers t' = workers t"
    by (cases rule: processQueue_select_cases) auto
  ultimately show ?thesis
    using select(1,5) by (cases r) (auto simp: refs_ok_def)
next
  case (onError w r)
  with assms show ?thesis by (auto simp: refs_ok_def)
next
  case (delete w)
  with assms show ?thesis
    by (auto simp: refs_ok_def split: option.splits if_splits)
qed

subsection \<open>A worker that has not finished is the one the table names\<close>

lemma live_ok_Send:
  assumes "live_ok t"
  shows "live_ok (snd (SendAsync req rt t))"
proof (cases "queue_of t (Type (Message req) = MsgSnap) (ToReplica req)")
  case None
  define b where "b = (Type (Message req) = MsgSnap)"
  have none: "queue_of t b (ToReplica req) = None"
    using None by (simp add: b_def)
  have q': "queue_of (snd (SendAsync req rt t)) b' d =
      (if b' = b \<and> d = ToReplica req then Some (nchans t) else queue_of t b' d)" for b' d
    unfolding b_def by (rule queue_of_SendAsync_new [OF None])
  show ?thesis
    unfolding live_ok_def
  proof (intro allI impI)
    fix c w
    assume w: "workers (snd (SendAsync req rt t)) c = Some w" and ph: "w_phase w \<noteq> Finished"
    show "queue_of (snd (SendAsync req rt t)) (w_isSnap w) (w_toReplica w) = Some c"
    proof (cases "workers t c = Some w")
      case True
      with assms ph have q: "queue_of t (w_isSnap w) (w_toReplica w) = Some c"
        by (simp add: live_ok_def)
      have "\<not> (w_isSnap w = b \<and> w_toReplica w = ToReplica req)"
      proof
        assume "w_isSnap w = b \<and> w_toReplica w = ToReplica req"
        then have e: "w_isSnap w = b" "w_toReplica w = ToReplica req" by simp_all
        from q have "queue_of t b (ToReplica req) = Some c" unfolding e .
        with none show False by simp
      qed
      with q show ?thesis
        by (simp only: q' if_False)
    next
      case False
      with w have "c = nchans t \<and> w = \<lparr>w_toReplica = ToReplica req,
          w_isSnap = b, w_phase = Starting\<rparr>"
        unfolding b_def
        by (cases rt) (auto simp: SendAsync_new_fields [OF None] split: if_splits)
      then show ?thesis
        by (simp add: q')
    qed
  qed
next
  case (Some c)
  have "queue_of (snd (SendAsync req rt t)) = queue_of t"
    by (rule queue_of_cong) (rule SendAsync_existing_fields [OF Some])
  with assms show ?thesis
    by (simp add: live_ok_def SendAsync_existing_fields(6) [OF Some])
qed

lemma live_ok_set_phase:
  assumes "live_ok t" "workers t ch = Some w"
    and "p \<noteq> Finished \<Longrightarrow> w_phase w \<noteq> Finished"
  shows "live_ok (set_phase ch w p t)"
  unfolding live_ok_def
proof (intro allI impI)
  fix c w'
  assume w': "workers (set_phase ch w p t) c = Some w'" and ph: "w_phase w' \<noteq> Finished"
  show "queue_of (set_phase ch w p t) (w_isSnap w') (w_toReplica w') = Some c"
  proof (cases "c = ch")
    case True
    with w' have eq: "w' = w\<lparr>w_phase := p\<rparr>" by simp
    with ph assms(3) have "w_phase w \<noteq> Finished" by simp
    with assms(1,2) have "queue_of t (w_isSnap w) (w_toReplica w) = Some ch"
      by (simp add: live_ok_def)
    with eq True show ?thesis by simp
  next
    case False
    with w' have "workers t c = Some w'" by simp
    with assms(1) ph show ?thesis by (simp add: live_ok_def)
  qed
qed

lemma live_ok_cong:
  "live_ok t \<Longrightarrow> queues t' = queues t \<Longrightarrow> workers t' = workers t \<Longrightarrow> live_ok t'"
  by (simp add: live_ok_def queue_of_cong [of t' t])

lemma live_ok_Worker:
  assumes "live_ok t"
  shows "live_ok (worker_step ch ev t)"
proof (cases ch ev t rule: worker_step_cases)
  case skip
  with assms show ?thesis by simp
next
  case (dial w r d c k)
  show ?thesis
    unfolding dial(4) by (rule live_ok_set_phase [OF assms dial(1)]) (simp add: dial(2))
next
  case (select w sel r t')
  from select(4) have eq: "queues t' = queues t" "workers t' = workers t"
    by (cases rule: processQueue_select_cases; simp)+
  have t': "live_ok t'"
    by (rule live_ok_cong [OF assms eq])
  show ?thesis
  proof (cases r)
    case None
    with t' select(5) show ?thesis by simp
  next
    case (Some x)
    have "live_ok (set_phase ch w (Returned x) t')"
      by (rule live_ok_set_phase [OF t']) (simp_all add: eq select(1,2))
    with Some select(5) show ?thesis by simp
  qed
next
  case (onError w r)
  have "live_ok (t\<lparr>onError_calls := onError_calls t @ [(r, w_toReplica w)]\<rparr>)"
    by (rule live_ok_cong [OF assms]) simp_all
  then show ?thesis
    unfolding onError(4) by (rule live_ok_set_phase) (simp_all add: onError(1,2))
next
  case (delete w)
  have own: "queue_of t (w_isSnap w) (w_toReplica w) = Some ch"
    using assms delete(1,2) by (simp add: live_ok_def)
  define t1 where "t1 = (case queues t (w_isSnap w) of
              None \<Rightarrow> t
            | Some qs \<Rightarrow> t\<lparr>queues := (queues t)(w_isSnap w \<mapsto> qs(w_toReplica w := None))\<rparr>)"
  have q1: "queue_of t1 b d = (if b = w_isSnap w \<and> d = w_toReplica w then None else queue_of t b d)"
    for b d
    by (auto simp: t1_def queue_of_def split: option.splits)
  have w1: "workers t1 = workers t"
    by (simp add: t1_def split: option.splits)
  show ?thesis
    unfolding live_ok_def
  proof (intro allI impI)
    fix c w'
    assume w': "workers (worker_step ch ev t) c = Some w'" and ph: "w_phase w' \<noteq> Finished"
    have step: "worker_step ch ev t = set_phase ch w Finished t1"
      by (simp add: delete(4) t1_def)
    from w' ph have c: "c \<noteq> ch" and old: "workers t c = Some w'"
      by (auto simp: step w1 split: if_splits)
    with assms ph have q: "queue_of t (w_isSnap w') (w_toReplica w') = Some c"
      by (simp add: live_ok_def)
    have "\<not> (w_isSnap w' = w_isSnap w \<and> w_toReplica w' = w_toReplica w)"
    proof
      assume "w_isSnap w' = w_isSnap w \<and> w_toReplica w' = w_toReplica w"
      then have e: "w_isSnap w' = w_isSnap w" "w_toReplica w' = w_toReplica w" by simp_all
      from q have "queue_of t (w_isSnap w) (w_toReplica w) = Some c" unfolding e .
      with own c show False by simp
    qed
    with q show "queue_of (worker_step ch ev t) (w_isSnap w') (w_toReplica w') = Some c"
      by (simp only: step queue_of_set_phase q1 if_False)
  qed
qed

subsection \<open>No channel holds more than its capacity\<close>

lemma cap_ok_Send: "cap_ok t \<Longrightarrow> cap_ok (snd (SendAsync req rt t))"
proof (cases "queue_of t (Type (Message req) = MsgSnap) (ToReplica req)")
  case None
  assume "cap_ok t"
  then show ?thesis
    by (auto simp: cap_ok_def raftSendBufferSize_def SendAsync_new_fields [OF None])
next
  case (Some c)
  assume "cap_ok t"
  then show ?thesis
    by (auto simp: cap_ok_def SendAsync_existing_fields [OF Some])
qed

lemma cap_ok_Worker:
  assumes "cap_ok t"
  shows "cap_ok (worker_step ch ev t)"
proof -
  have sel: "cap_ok t'" if "processQueue_select ch sel t = (r, t')" for sel r t'
    using that
  proof (cases rule: processQueue_select_cases)
    case same
    with assms show ?thesis by simp
  next
    case (dequeue req rest err snap)
    from assms have "length (chans t ch) \<le> raftSendBufferSize" "\<And>c. length (chans t c) \<le> raftSendBufferSize"
      by (simp_all add: cap_ok_def)
    with dequeue(2,3) show ?thesis
      by (auto simp: cap_ok_def)
  qed
  show ?thesis
  proof (cases ch ev t rule: worker_step_cases)
    case (select w sel r t')
    from sel [OF select(4)] select(5) show ?thesis
      by (cases r) (auto simp: cap_ok_def)
  qed (use assms in \<open>auto simp: cap_ok_def split: option.splits\<close>)
qed

subsection \<open>Each channel is a queue between SendAsync and its worker\<close>

lemma sent_on_cong: "stream_sends t' = stream_sends t \<Longrightarrow> sent_on c t' = sent_on c t"
  by (simp add: sent_on_def)

lemma sent_on_snoc:
  "stream_sends t' = stream_sends t @ [(ch, req, err)] \<Longrightarrow>
   sent_on c t' = sent_on c t @ (if c = ch then [req] else [])"
  by (simp add: sent_on_def)

lemma enqueued_on_cong: "enqueued t' = enqueued t \<Longrightarrow> enqueued_on c t' = enqueued_on c t"
  by (simp add: enqueued_on_def)

lemma enqueued_on_snoc:
  "enqueued t' = enqueued t @ [(ch, req)] \<Longrightarrow>
   enqueued_on c t' = enqueued_on c t @ (if c = ch then [req] else [])"
  by (simp add: enqueued_on_def)

lemma fifo_ok_fresh:
  assumes "fifo_ok t" "nchans t \<le> c"
  shows "enqueued_on c t = []" "sent_on c t = []"
proof -
  from assms show e: "enqueued_on c t = []" by (simp add: fifo_ok_def)
  from assms(1) have "sent_on c t @ chans t c = enqueued_on c t" by (simp add: fifo_ok_def)
  with e show "sent_on c t = []" by simp
qed

lemma fifo_ok_Send:
  assumes "fifo_ok t" "refs_ok t"
  shows "fifo_ok (snd (SendAsync req rt t))"
proof (cases "queue_of t (Type (Message req) = MsgSnap) (ToReplica req)")
  case None
  let ?t' = "snd (SendAsync req rt t)"
  note f = SendAsync_new_fields [OF None, of rt]
  have s: "sent_on c ?t' = sent_on c t" for c
    by (rule sent_on_cong) (rule f)
  have e: "enqueued_on c ?t' = enqueued_on c t @ (if c = nchans t then [req] else [])" for c
    by (rule enqueued_on_snoc) (rule f)
  have fresh: "enqueued_on (nchans t) t = []" "sent_on (nchans t) t = []"
    using fifo_ok_fresh [OF assms(1), of "nchans t"] by simp_all
  from assms(1) have old: "sent_on c t @ chans t c = enqueued_on c t" for c
    by (simp add: fifo_ok_def)
  from assms(1) have old2: "nchans t \<le> c \<Longrightarrow> enqueued_on c t = []" for c
    by (simp add: fifo_ok_def)
  show ?thesis
    unfolding fifo_ok_def
  proof (intro conjI allI impI)
    fix c
    show "sent_on c ?t' @ chans ?t' c = enqueued_on c ?t'"
      by (simp add: s e f(2) fresh old)
  next
    fix c
    assume "nchans ?t' \<le> c"
    then have "nchans t \<le> c" "c \<noteq> nchans t" by (simp_all add: f(3))
    then show "enqueued_on c ?t' = []"
      by (simp add: e old2)
  qed
next
  case (Some c0)
  let ?t' = "snd (SendAsync req rt t)"
  note f = SendAsync_existing_fields [OF Some, of rt]
  have lt: "c0 < nchans t"
    by (rule queue_of_lt [OF assms(2) Some])
  have s: "sent_on c ?t' = sent_on c t" for c
    by (rule sent_on_cong) (rule f)
  from assms(1) have old: "sent_on c t @ chans t c = enqueued_on c t" for c
    by (simp add: fifo_ok_def)
  from assms(1) have old2: "nchans t \<le> c \<Longrightarrow> enqueued_on c t = []" for c
    by (simp add: fifo_ok_def)
  show ?thesis
  proof (cases "length (chans t c0) < raftSendBufferSize")
    case True
    have e: "enqueued_on c ?t' = enqueued_on c t @ (if c = c0 then [req] else [])" for c
      by (rule enqueued_on_snoc) (simp add: f(3) True)
    have ch: "chans ?t' = (chans t)(c0 := chans t c0 @ [req])"
      by (simp add: f(2) True)
    show ?thesis
      unfolding fifo_ok_def
    proof (intro conjI allI impI)
      fix c
      show "sent_on c ?t' @ chans ?t' c = enqueued_on c ?t'"
        using old [of c] by (simp add: s e ch old [symmetric])
    next
      fix c
      assume "nchans ?t' \<le> c"
      with lt have "nchans t \<le> c" "c \<noteq> c0" by (simp_all add: f(5))
      then show "enqueued_on c ?t' = []"
        by (simp add: e old2)
    qed
  next
    case False
    have e: "enqueued_on c ?t' = enqueued_on c t" for c
      by (rule enqueued_on_cong) (simp add: f(3) False)
    have ch: "chans ?t' = chans t"
      by (simp add: f(2) False)
    from assms(1) show ?thesis
      by (simp add: fifo_ok_def s e ch f(5))
  qed
qed

lemma fifo_ok_cong:
  assumes "fifo_ok t" "chans t' = chans t" "nchans t' = nchans t"
    "stream_sends t' = stream_sends t" "enqueued t' = enqueued t"
  shows "fifo_ok t'"
  using assms(1)
  by (simp add: fifo_ok_def assms(2,3) sent_on_cong [OF assms(4)] enqueued_on_cong [OF assms(5)])

lemma fifo_ok_select:
  assumes "fifo_ok t" "processQueue_select ch sel t = (r, t')"
  shows "fifo_ok t'"
  using assms(2)
proof (cases rule: processQueue_select_cases)
  case same
  with assms(1) show ?thesis by simp
next
  case (dequeue req rest err snap)
  have s: "sent_on c t' = sent_on c t @ (if c = ch then [req] else [])" for c
    by (rule sent_on_snoc) (rule dequeue)
  have e: "enqueued_on c t' = enqueued_on c t" for c
    by (rule enqueued_on_cong) (rule dequeue)
  from assms(1) have old: "sent_on c t @ chans t c = enqueued_on c t" for c
    by (simp add: fifo_ok_def)
  from assms(1) have old2: "nchans t \<le> c \<Longrightarrow> enqueued_on c t = []" for c
    by (simp add: fifo_ok_def)
  show ?thesis
    unfolding fifo_ok_def
  proof (intro conjI allI impI)
    fix c
    show "sent_on c t' @ chans t' c = enqueued_on c t'"
      using old [of c] dequeue(2) by (auto simp: s e dequeue(3))
  next
    fix c
    assume "nchans t' \<le> c"
    then show "enqueued_on c t' = []"
      by (simp add: e old2 dequeue(8))
  qed
qed

lemma fifo_ok_Worker:
  assumes "fifo_ok t"
  shows "fifo_ok (worker_step ch ev t)"
proof (cases ch ev t rule: worker_step_cases)
  case skip
  with assms show ?thesis by simp
next
  case (dial w r d c k)
  show ?thesis
    unfolding dial(4) by (rule fifo_ok_cong [OF assms]) simp_all
next
  case (select w sel r t')
  have t': "fifo_ok t'"
    by (rule fifo_ok_select [OF assms select(4)])
  show ?thesis
  proof (cases r)
    case None
    with t' select(5) show ?thesis by simp
  next
    case (Some x)
    have "fifo_ok (set_phase ch w (Returned x) t')"
      by (rule fifo_ok_cong [OF t']) simp_all
    with Some select(5) show ?thesis by simp
  qed
next
  case (onError w r)
  show ?thesis
    unfolding onError(4) by (rule fifo_ok_cong [OF assms]) simp_all
next
  case (delete w)
  show ?thesis
    unfolding delete(4) by (rule fifo_ok_cong [OF assms]) (simp_all split: option.splits)
qed

subsection \<open>The invariant of every run\<close>

lemma invariant_New: "invariant NewRaftTransport"
  by (simp add: invariant_def refs_ok_def live_ok_def cap_ok_def fifo_ok_def
      NewRaftTransport_def sent_on_def enqueued_on_def)

lemma invariant_step: "invariant t \<Longrightarrow> invariant (step e t)"
  by (cases e)
    (simp_all add: invariant_def refs_ok_Send live_ok_Send cap_ok_Send fifo_ok_Send
      refs_ok_Worker live_ok_Worker cap_ok_Worker fifo_ok_Worker)

lemma invariant_run: "invariant t \<Longrightarrow> invariant (run es t)"
  by (induction es arbitrary: t) (simp_all add: invariant_step)


subsection \<open>What the steps do to the table, the workers and the streams\<close>

lemma queue_of_delete:
  "queue_of (case queues t b0 of
               None \<Rightarrow> t
             | Some qs \<Rightarrow> t\<lparr>queues := (queues t)(b0 \<mapsto> qs(d0 := None))\<rparr>) b d
     = (if b = b0 \<and> d = d0 then None else queue_of t b d)"
  by (auto simp: queue_of_def split: option.splits)

lemma queue_of_worker_step:
  "queue_of (worker_step c ev t) b d =
     (if \<exists>w. workers t c = Some w \<and> w_phase w = Reported \<and> ev = Delete
              \<and> b = w_isSnap w \<and> d = w_toReplica w
      then None else queue_of t b d)"
proof (cases c ev t rule: worker_step_cases)
  case skip
  show ?thesis
  proof (cases "\<exists>w. workers t c = Some w \<and> w_phase w = Reported \<and> ev = Delete
              \<and> b = w_isSnap w \<and> d = w_toReplica w")
    case True
    then obtain w where w: "workers t c = Some w" "w_phase w = Reported" "ev = Delete"
      "b = w_isSnap w" "d = w_toReplica w" by blast
    have "worker_step c ev t = set_phase c w Finished
           (case queues t (w_isSnap w) of
              None \<Rightarrow> t
            | Some qs \<Rightarrow> t\<lparr>queues := (queues t)(w_isSnap w \<mapsto> qs(w_toReplica w := None))\<rparr>)"
      by (simp add: worker_step_def w)
    then have "queue_of (worker_step c ev t) b d = None"
      by (simp add: queue_of_delete w)
    with True show ?thesis by simp
  next
    case False
    show ?thesis
      unfolding skip by (rule if_not_P [symmetric, OF False])
  qed
next
  case (dial w r d' c' k)
  then show ?thesis by simp
next
  case (select w sel r t')
  from select(4) have "queues t' = queues t"
    by (cases rule: processQueue_select_cases) simp_all
  then have "queue_of t' = queue_of t" by (rule queue_of_cong)
  with select show ?thesis by (cases r) simp_all
next
  case (onError w r)
  have "queue_of (t\<lparr>onError_calls := onError_calls t @ [(r, w_toReplica w)]\<rparr>) = queue_of t"
    by (rule queue_of_cong) simp
  with onError show ?thesis by simp
next
  case (delete w)
  then show ?thesis by (simp add: queue_of_delete)
qed

lemma workers_worker_step_other:
  "c' \<noteq> c \<Longrightarrow> workers (worker_step c ev t) c' = workers t c'"
proof (cases c ev t rule: worker_step_cases)
  case (select w sel r t')
  assume "c' \<noteq> c"
  moreover from select(4) have "workers t' = workers t"
    by (cases rule: processQueue_select_cases) simp_all
  ultimately show ?thesis using select(5) by (cases r) simp_all
qed (simp_all split: option.splits)

lemma sent_on_worker_step_other:
  "c' \<noteq> c \<Longrightarrow> sent_on c' (worker_step c ev t) = sent_on c' t"
proof (cases c ev t rule: worker_step_cases)
  case (select w sel r t')
  assume ne: "c' \<noteq> c"
  from select(4) have "sent_on c' t' = sent_on c' t"
  proof (cases rule: processQueue_select_cases)
    case same
    then show ?thesis by simp
  next
    case (dequeue req rest err snap)
    from sent_on_snoc [OF dequeue(4), of c'] ne show ?thesis by simp
  qed
  with select(5) show ?thesis by (cases r) simp_all
qed (simp_all add: sent_on_def split: option.splits)




lemma workers_lt: "refs_ok t \<Longrightarrow> workers t c = Some w \<Longrightarrow> c < nchans t"
  by (auto simp: refs_ok_def)

lemma workers_fresh: "refs_ok t \<Longrightarrow> workers t (nchans t) = None"
  using workers_lt [of t "nchans t"] by (cases "workers t (nchans t)") auto





subsection \<open>A channel without a worker stays in the table\<close>

lemma orphan_step:
  assumes "invariant t" "orphan ch b d t"
  shows "orphan ch b d (step e t)"
proof (cases e)
  case (Send req rt)
  from assms(2) have q: "queue_of t b d = Some ch" and w: "workers t ch = None"
    and s: "sent_on ch t = []" by (simp_all add: orphan_def)
  from assms(1) have "refs_ok t" by (simp add: invariant_def)
  then have lt: "ch < nchans t" using q by (rule queue_of_lt)
  show ?thesis
  proof (cases "queue_of t (Type (Message req) = MsgSnap) (ToReplica req)")
    case None
    note f = SendAsync_new_fields [OF None, of rt]
    have "\<not> (b = (Type (Message req) = MsgSnap) \<and> d = ToReplica req)"
    proof
      assume "b = (Type (Message req) = MsgSnap) \<and> d = ToReplica req"
      then have e: "b = (Type (Message req) = MsgSnap)" "d = ToReplica req" by simp_all
      from q have "queue_of t (Type (Message req) = MsgSnap) (ToReplica req) = Some ch"
        unfolding e .
      with None show False by simp
    qed
    then have "queue_of (snd (SendAsync req rt t)) b d = Some ch"
      by (simp only: queue_of_SendAsync_new [OF None] if_False q)
    moreover have "workers (snd (SendAsync req rt t)) ch = None"
      using lt w by (simp add: f split: option.splits)
    moreover have "sent_on ch (snd (SendAsync req rt t)) = []"
      using s sent_on_cong [OF f(7), of ch] by simp
    ultimately show ?thesis by (simp add: orphan_def Send)
  next
    case (Some c)
    note f = SendAsync_existing_fields [OF Some, of rt]
    have "queue_of (snd (SendAsync req rt t)) = queue_of t"
      by (rule queue_of_cong) (rule f)
    with q w s sent_on_cong [OF f(8), of ch] show ?thesis
      by (simp add: orphan_def Send f)
  qed
next
  case (Worker c ev)
  from assms(2) have q: "queue_of t b d = Some ch" and w: "workers t ch = None"
    and s: "sent_on ch t = []" by (simp_all add: orphan_def)
  from assms(1) have live: "live_ok t" by (simp add: invariant_def)
  show ?thesis
  proof (cases "c = ch")
    case True
    with w have "worker_step c ev t = t" by (simp add: worker_step_def)
    with assms(2) Worker show ?thesis by simp
  next
    case False
    have "\<not> (\<exists>w. workers t c = Some w \<and> w_phase w = Reported \<and> ev = Delete
              \<and> b = w_isSnap w \<and> d = w_toReplica w)"
    proof
      assume "\<exists>w. workers t c = Some w \<and> w_phase w = Reported \<and> ev = Delete
              \<and> b = w_isSnap w \<and> d = w_toReplica w"
      then obtain w where w: "workers t c = Some w" "w_phase w = Reported"
        and e: "b = w_isSnap w" "d = w_toReplica w" by blast
      from live w have "queue_of t (w_isSnap w) (w_toReplica w) = Some c"
        by (simp add: live_ok_def)
      with q False show False unfolding e by simp
    qed
    then have "queue_of (worker_step c ev t) b d = Some ch"
      by (simp only: queue_of_worker_step if_False q)
    moreover from False have "ch \<noteq> c" by simp
    ultimately show ?thesis
      using w s by (simp add: orphan_def Worker workers_worker_step_other sent_on_worker_step_other)
  qed
qed

lemma orphan_run:
  "invariant t \<Longrightarrow> orphan ch b d t \<Longrightarrow> orphan ch b d (run es t)"
  by (induction es arbitrary: t) (simp_all add: invariant_step orphan_step)

subsection \<open>Consecutive calls of SendAsync for one key\<close>

lemma SendAsync_seq_existing:
  assumes "queue_of t b d = Some c"
    and "\<forall>x \<in> set xs. ToReplica (fst x) = d \<and> (Type (Message (fst x)) = MsgSnap) = b"
  shows "SendAsync_returns (map (\<lambda>x. Send (fst x) (snd x)) xs) t =
           replicate (min (length xs) (raftSendBufferSize - length (chans t c))) True @
           replicate (length xs - (raftSendBufferSize - length (chans t c))) False
       \<and> chans (run (map (\<lambda>x. Send (fst x) (snd x)) xs) t) c =
           chans t c @ take (raftSendBufferSize - length (chans t c)) (map fst xs)
       \<and> enqueued (run (map (\<lambda>x. Send (fst x) (snd x)) xs) t) =
           enqueued t @ map (Pair c) (take (raftSendBufferSize - length (chans t c)) (map fst xs))
       \<and> queue_of (run (map (\<lambda>x. Send (fst x) (snd x)) xs) t) b d = Some c
       \<and> workers (run (map (\<lambda>x. Send (fst x) (snd x)) xs) t) = workers t
       \<and> onError_calls (run (map (\<lambda>x. Send (fst x) (snd x)) xs) t) = onError_calls t"
  using assms
proof (induction xs arbitrary: t)
  case Nil
  then show ?case by simp
next
  case (Cons x xs)
  let ?t' = "snd (SendAsync (fst x) (snd x) t)"
  from Cons.prems have key: "ToReplica (fst x) = d" "(Type (Message (fst x)) = MsgSnap) = b"
    by simp_all
  from Cons.prems(1) have q: "queue_of t (Type (Message (fst x)) = MsgSnap) (ToReplica (fst x)) = Some c"
    by (simp only: key)
  note f = SendAsync_existing_fields [OF q, of "snd x"]
  have "queue_of ?t' = queue_of t"
    by (rule queue_of_cong) (rule f)
  with Cons.prems(1) have q': "queue_of ?t' b d = Some c" by simp
  from Cons.prems(2) have rest: "\<forall>x \<in> set xs. ToReplica (fst x) = d \<and> (Type (Message (fst x)) = MsgSnap) = b"
    by simp
  note IH = Cons.IH [OF q' rest]
  show ?case
  proof (cases "length (chans t c) < raftSendBufferSize")
    case True
    then obtain m where m: "raftSendBufferSize - length (chans t c) = Suc m"
      by (cases "raftSendBufferSize - length (chans t c)") simp_all
    have c': "chans ?t' c = chans t c @ [fst x]"
      by (simp add: f True)
    have m': "raftSendBufferSize - Suc (length (chans t c)) = m"
      using m by simp
    from IH show ?thesis
      by (simp add: f True m m' c')
  next
    case False
    then have z: "raftSendBufferSize - length (chans t c) = 0" by simp
    have c': "chans ?t' = chans t"
      by (simp add: f False)
    from IH show ?thesis
      by (simp add: f False z c')
  qed
qed

lemma SendAsync_seq_new:
  assumes "queue_of t b d = None" and "xs \<noteq> []"
    and "\<forall>x \<in> set xs. ToReplica (fst x) = d \<and> (Type (Message (fst x)) = MsgSnap) = b"
  shows "SendAsync_returns (map (\<lambda>x. Send (fst x) (snd x)) xs) t =
           replicate (min (length xs) 100) True @ replicate (length xs - 100) False
       \<and> chans (run (map (\<lambda>x. Send (fst x) (snd x)) xs) t) (nchans t) = take 100 (map fst xs)
       \<and> enqueued (run (map (\<lambda>x. Send (fst x) (snd x)) xs) t) =
           enqueued t @ map (Pair (nchans t)) (take 100 (map fst xs))
       \<and> queue_of (run (map (\<lambda>x. Send (fst x) (snd x)) xs) t) b d = Some (nchans t)"
proof (cases xs)
  case Nil
  with assms(2) show ?thesis by simp
next
  case (Cons x ys)
  let ?t' = "snd (SendAsync (fst x) (snd x) t)"
  from assms(3) Cons have key: "ToReplica (fst x) = d" "(Type (Message (fst x)) = MsgSnap) = b"
    by simp_all
  from assms(1) have q: "queue_of t (Type (Message (fst x)) = MsgSnap) (ToReplica (fst x)) = None"
    by (simp only: key)
  note f = SendAsync_new_fields [OF q, of "snd x"]
  have "queue_of ?t' (Type (Message (fst x)) = MsgSnap) (ToReplica (fst x)) = Some (nchans t)"
    by (simp add: queue_of_SendAsync_new [OF q])
  then have q': "queue_of ?t' b d = Some (nchans t)"
    by (simp only: key)
  from assms(3) Cons have rest: "\<forall>x \<in> set ys. ToReplica (fst x) = d \<and> (Type (Message (fst x)) = MsgSnap) = b"
    by simp
  have c': "chans ?t' (nchans t) = [fst x]"
    by (simp add: f)
  from SendAsync_seq_existing [OF q' rest]
  show ?thesis
    by (simp add: Cons f c' raftSendBufferSize_def)
qed

subsection \<open>Snapshot status\<close>

lemma SnapshotStatusChan_SendAsync:
  "SnapshotStatusChan (snd (SendAsync req rt t)) = SnapshotStatusChan t"
  by (cases "queue_of t (Type (Message req) = MsgSnap) (ToReplica req)")
    (simp_all add: SendAsync_new_fields SendAsync_existing_fields)

lemma snapshot_dequeue_Send [simp]: "snapshot_dequeue (Send req rt) t = None"
  by (simp add: snapshot_dequeue_def)

lemma snapshot_step_Worker:
  "SnapshotStatusChan (worker_step ch ev t) =
     SnapshotStatusChan t @
       (case snapshot_dequeue (Worker ch ev) t of
          Some (c, req, err, SnapPublish) \<Rightarrow> [\<lparr>Req = req, Err = err\<rparr>]
        | _ \<Rightarrow> [])"
  by (auto simp: worker_step_def snapshot_dequeue_def set_phase_def Let_def
      split: option.splits phase.splits worker_event.splits select_processQueue.splits
        list.splits select_snapshot.splits if_splits prod.splits)

lemma snapshot_stop_Worker:
  "snapshot_dequeue (Worker ch ev) t = Some (c, req, err, snap) \<Longrightarrow>
     stream_sends (worker_step ch ev t) = stream_sends t @ [(c, req, err)]
   \<and> (snap = SnapShouldStop \<longrightarrow>
        (\<exists>w. workers (worker_step ch ev t) c = Some w \<and> w_phase w = Returned None))"
  by (auto simp: worker_step_def snapshot_dequeue_def set_phase_def Let_def
      split: option.splits phase.splits worker_event.splits select_processQueue.splits
        list.splits select_snapshot.splits if_splits prod.splits)

subsection \<open>The read loop\<close>

lemma read_loop_append:
  "fst (read_loop pre) = None \<Longrightarrow>
   read_loop (pre @ xs) = (fst (read_loop xs), snd (read_loop pre) @ snd (read_loop xs))"
  by (induction pre rule: read_loop.induct) (auto split: option.splits prod.splits)

subsection \<open>Evaluation of the concrete runs\<close>

lemmas eval_defs =
  SendAsync_def NewRaftTransport_def worker_step_def set_phase_def processQueue_dial_def
  Let_def raftSendBufferSize_def queue_of_def

lemma written_two_workers:
  "written (run (two_workers reqA reqB @
      [Worker 0 (Select (SelectCh None SnapPublish)), Worker 1 (Select (SelectCh None SnapPublish))])
      NewRaftTransport) = [reqA, reqB]"
  "written (run (two_workers reqA reqB @
      [Worker 1 (Select (SelectCh None SnapPublish)), Worker 0 (Select (SelectCh None SnapPublish))])
      NewRaftTransport) = [reqB, reqA]"
  "written (run (two_workers reqA reqS @
      [Worker 0 (Select (SelectCh None SnapPublish)), Worker 1 (Select (SelectCh None SnapPublish))])
      NewRaftTransport) = [reqA, reqS]"
  "written (run (two_workers reqA reqS @
      [Worker 1 (Select (SelectCh None SnapPublish)), Worker 0 (Select (SelectCh None SnapPublish))])
      NewRaftTransport) = [reqS, reqA]"
  "SendAsync_returns (two_workers reqA reqB) NewRaftTransport = [True, True]"
  "SendAsync_returns (two_workers reqA reqS) NewRaftTransport = [True, True]"
  by (simp_all add: written_def two_workers_def eval_defs reqA_def reqB_def reqS_def dest1_def dest2_def)

lemma full_queue_facts:
  "chans full_queue 0 = replicate 100 reqA"
  "queue_of full_queue False dest1 = Some 0"
proof -
  have 1: "queue_of NewRaftTransport False dest1 = None"
    by (simp add: queue_of_def NewRaftTransport_def)
  have 0: "replicate 100 (reqA, None :: error option) \<noteq> []"
    by simp
  have 2: "\<forall>x \<in> set (replicate 100 (reqA, None :: error option)).
      ToReplica (fst x) = dest1 \<and> (Type (Message (fst x)) = MsgSnap) = False"
    by (simp add: reqA_def)
  from SendAsync_seq_new [OF 1 0 2]
  show "chans full_queue 0 = replicate 100 reqA" "queue_of full_queue False dest1 = Some 0"
    by (simp_all add: full_queue_def NewRaftTransport_def)
qed

lemma reqA_key: "(Type (Message reqA) = MsgSnap) = False" "ToReplica reqA = dest1"
  by (simp_all add: reqA_def)

section \<open>The claims\<close>

subsection \<open>C1: what onError is called with\<close>

text \<open>
  C1. The worker passes the value returned by \<open>processQueue\<close> to \<open>onError\<close>
  without looking at it. When the loop leaves through the idle timer or through
  the stop signal, \<open>processQueue\<close> returns nil, and the worker then calls
  \<open>onError\<close> once, with nil and its destination: a termination that no error
  caused does invoke \<open>onError\<close>.
\<close>

theorem onError_called_with_nil:
  assumes "workers t ch = Some w" "w_phase w = Looping"
    and "sel = SelectIdleTimer \<or> sel = SelectShouldStop"
  shows "onError_calls (run [Worker ch (Select sel), Worker ch OnError] t) =
           onError_calls t @ [(None, w_toReplica w)]"
  using assms by (auto simp: worker_step_def set_phase_def)

theorem onError_called_with_nil_witness:
  "onError_calls (run [Send reqA None, Worker 0 dial_ok,
       Worker 0 (Select SelectIdleTimer), Worker 0 OnError] NewRaftTransport) = [(None, dest1)]
   \<and> onError_calls (run [Send reqA None, Worker 0 dial_ok,
       Worker 0 (Select SelectShouldStop), Worker 0 OnError] NewRaftTransport) = [(None, dest1)]"
proof -
  let ?t = "worker_step 0 dial_ok (snd (SendAsync reqA None NewRaftTransport))"
  let ?w = "\<lparr>w_toReplica = dest1, w_isSnap = False, w_phase = Looping\<rparr>"
  have w: "workers ?t 0 = Some ?w"
    by (simp add: eval_defs dial_ok_def reqA_def)
  have ph: "w_phase ?w = Looping" by simp
  have e: "onError_calls ?t = []"
    by (simp add: eval_defs dial_ok_def reqA_def)
  show ?thesis
    using onError_called_with_nil [OF w ph, of SelectIdleTimer]
      onError_called_with_nil [OF w ph, of SelectShouldStop]
    by (simp add: e)
qed

subsection \<open>C2: SendAsync returns true iff the request was placed on the queue\<close>

text \<open>
  C2. For every request and every state, \<open>SendAsync\<close> returns a value (it is a
  total function: the channel send has a \<open>default\<close> case). After the call the
  table holds a channel for the request's destination and class; the call
  returns true exactly when that channel held fewer than \<open>raftSendBufferSize\<close>
  requests before; if it returns true the channel holds what it held before
  followed by the request, and if it returns false the channel holds what it
  held before and nothing was enqueued.
\<close>

theorem SendAsync_true_iff_enqueued:
  "\<exists>ch. queue_of (snd (SendAsync req rt t)) (Type (Message req) = MsgSnap) (ToReplica req) = Some ch
     \<and> fst (SendAsync req rt t) = (length (queue_before t req) < raftSendBufferSize)
     \<and> (fst (SendAsync req rt t) \<longrightarrow>
          chans (snd (SendAsync req rt t)) ch = queue_before t req @ [req]
        \<and> enqueued (snd (SendAsync req rt t)) = enqueued t @ [(ch, req)])
     \<and> (\<not> fst (SendAsync req rt t) \<longrightarrow>
          chans (snd (SendAsync req rt t)) ch = queue_before t req
        \<and> enqueued (snd (SendAsync req rt t)) = enqueued t)"
proof (cases "queue_of t (Type (Message req) = MsgSnap) (ToReplica req)")
  case None
  have "queue_of (snd (SendAsync req rt t)) (Type (Message req) = MsgSnap) (ToReplica req)
      = Some (nchans t)"
    by (simp add: queue_of_SendAsync_new [OF None])
  then show ?thesis
    by (simp add: queue_before_def None SendAsync_new_fields [OF None] raftSendBufferSize_def)
next
  case (Some c)
  have "queue_of (snd (SendAsync req rt t)) = queue_of t"
    by (rule queue_of_cong) (rule SendAsync_existing_fields [OF Some])
  with Some show ?thesis
    by (simp add: queue_before_def SendAsync_existing_fields [OF Some])
qed

theorem SendAsync_true_iff_enqueued_witness:
  "fst (SendAsync reqA None NewRaftTransport)
   \<and> chans (snd (SendAsync reqA None NewRaftTransport)) 0 = [reqA]
   \<and> length (queue_before full_queue reqA) = 100
   \<and> \<not> fst (SendAsync reqA None full_queue)
   \<and> chans (snd (SendAsync reqA None full_queue)) 0 = replicate 100 reqA"
proof -
  have b0: "queue_before NewRaftTransport reqA = []"
    by (simp add: queue_before_def queue_of_def NewRaftTransport_def)
  have q0: "queue_of (snd (SendAsync reqA None NewRaftTransport)) (Type (Message reqA) = MsgSnap)
      (ToReplica reqA) = Some 0"
    by (simp add: eval_defs reqA_def)
  have b1: "queue_before full_queue reqA = replicate 100 reqA"
    by (simp add: queue_before_def reqA_key full_queue_facts)
  have "queue_of full_queue (Type (Message reqA) = MsgSnap) (ToReplica reqA) = Some 0"
    by (simp add: reqA_key full_queue_facts)
  then have "queue_of (snd (SendAsync reqA None full_queue)) = queue_of full_queue"
    by (intro queue_of_cong SendAsync_existing_fields)
  then have q1: "queue_of (snd (SendAsync reqA None full_queue)) (Type (Message reqA) = MsgSnap)
      (ToReplica reqA) = Some 0"
    by (simp add: reqA_key full_queue_facts)
  show ?thesis
    using SendAsync_true_iff_enqueued [of reqA None NewRaftTransport]
      SendAsync_true_iff_enqueued [of reqA None full_queue]
    by (simp add: b0 q0 b1 q1 raftSendBufferSize_def)
qed

subsection \<open>C3: per-queue order\<close>

text \<open>
  C3. In every state of every run and for every channel, the requests the
  channel's worker has passed to \<open>stream.Send\<close>, followed by the requests the
  channel still holds, are the requests \<open>SendAsync\<close> placed on that channel, in
  the order in which it placed them; so what was written to the stream is a
  prefix of what was enqueued. Across destinations and across classes there is
  no order: with the same two calls of \<open>SendAsync\<close>, one run writes \<open>reqA\<close>
  before \<open>reqB\<close> (another destination) and another run after it, and likewise
  for \<open>reqA\<close> and the snapshot \<open>reqS\<close> to the same destination.
\<close>

theorem per_queue_FIFO:
  "sent_on ch (run es NewRaftTransport) @ chans (run es NewRaftTransport) ch
     = enqueued_on ch (run es NewRaftTransport)
   \<and> prefix (sent_on ch (run es NewRaftTransport)) (enqueued_on ch (run es NewRaftTransport))
   \<and> written (run (two_workers reqA reqB @
        [Worker 0 (Select (SelectCh None SnapPublish)), Worker 1 (Select (SelectCh None SnapPublish))])
        NewRaftTransport) = [reqA, reqB]
   \<and> written (run (two_workers reqA reqB @
        [Worker 1 (Select (SelectCh None SnapPublish)), Worker 0 (Select (SelectCh None SnapPublish))])
        NewRaftTransport) = [reqB, reqA]
   \<and> written (run (two_workers reqA reqS @
        [Worker 0 (Select (SelectCh None SnapPublish)), Worker 1 (Select (SelectCh None SnapPublish))])
        NewRaftTransport) = [reqA, reqS]
   \<and> written (run (two_workers reqA reqS @
        [Worker 1 (Select (SelectCh None SnapPublish)), Worker 0 (Select (SelectCh None SnapPublish))])
        NewRaftTransport) = [reqS, reqA]"
proof -
  have "invariant (run es NewRaftTransport)"
    by (rule invariant_run [OF invariant_New])
  then have eq: "sent_on ch (run es NewRaftTransport) @ chans (run es NewRaftTransport) ch
     = enqueued_on ch (run es NewRaftTransport)"
    by (simp add: invariant_def fifo_ok_def)
  then have "prefix (sent_on ch (run es NewRaftTransport)) (enqueued_on ch (run es NewRaftTransport))"
    by (metis prefixI)
  with eq show ?thesis
    by (simp only: written_two_workers simp_thms)
qed

theorem per_queue_FIFO_witness:
  "sent_on 0 (run (two_workers reqA reqB @ [Send reqA None,
      Worker 0 (Select (SelectCh None SnapPublish))]) NewRaftTransport) = [reqA]
   \<and> chans (run (two_workers reqA reqB @ [Send reqA None,
      Worker 0 (Select (SelectCh None SnapPublish))]) NewRaftTransport) 0 = [reqA]
   \<and> enqueued_on 0 (run (two_workers reqA reqB @ [Send reqA None,
      Worker 0 (Select (SelectCh None SnapPublish))]) NewRaftTransport) = [reqA, reqA]"
proof -
  have "sent_on 0 (run (two_workers reqA reqB @ [Send reqA None,
      Worker 0 (Select (SelectCh None SnapPublish))]) NewRaftTransport) = [reqA]"
    and "chans (run (two_workers reqA reqB @ [Send reqA None,
      Worker 0 (Select (SelectCh None SnapPublish))]) NewRaftTransport) 0 = [reqA]"
    by (simp_all add: two_workers_def eval_defs sent_on_def reqA_def reqB_def dest1_def dest2_def)
  then show ?thesis
    using per_queue_FIFO [of 0 "two_workers reqA reqB @ [Send reqA None,
      Worker 0 (Select (SelectCh None SnapPublish))]"]
    by simp
qed

subsection \<open>C4: snapshot status\<close>

text \<open>
  C4, as amended. A step appends at most one value to \<open>SnapshotStatusChan\<close>.
  It appends exactly the pair of the request and the result of \<open>stream.Send\<close>
  (nil or an error) when the step is a worker taking a \<open>MsgSnap\<close> request from
  its channel and the inner \<open>select\<close> completes the send on
  \<open>SnapshotStatusChan\<close>; it appends nothing in every other step. When the inner
  \<open>select\<close> sees the stop signal instead, the request has been passed to
  \<open>stream.Send\<close>, no status is published for it and \<open>processQueue\<close> returns
  nil.
\<close>

theorem snapshot_status_unless_stopped:
  "SnapshotStatusChan (step e t) =
     SnapshotStatusChan t @
       (case snapshot_dequeue e t of
          Some (c, req, err, SnapPublish) \<Rightarrow> [\<lparr>Req = req, Err = err\<rparr>]
        | _ \<Rightarrow> [])
   \<and> (\<forall>c req err snap. snapshot_dequeue e t = Some (c, req, err, snap) \<longrightarrow>
         stream_sends (step e t) = stream_sends t @ [(c, req, err)]
       \<and> (snap = SnapShouldStop \<longrightarrow>
            (\<exists>w. workers (step e t) c = Some w \<and> w_phase w = Returned None)))"
proof (cases e)
  case (Send req rt)
  then show ?thesis by (simp add: SnapshotStatusChan_SendAsync)
next
  case (Worker ch ev)
  show ?thesis
    unfolding Worker step.simps
    by (intro conjI allI impI snapshot_step_Worker) (drule snapshot_stop_Worker, simp)+
qed

theorem snapshot_status_unless_stopped_witness:
  "snapshot_dequeue (Worker 0 (Select (SelectCh (Some send_failed) SnapPublish))) snapshot_queued =
     Some (0, reqS, Some send_failed, SnapPublish)
   \<and> SnapshotStatusChan (step (Worker 0 (Select (SelectCh (Some send_failed) SnapPublish)))
       snapshot_queued) = [\<lparr>Req = reqS, Err = Some send_failed\<rparr>]
   \<and> snapshot_dequeue (Worker 0 (Select (SelectCh None SnapShouldStop))) snapshot_queued =
     Some (0, reqS, None, SnapShouldStop)
   \<and> stream_sends (step (Worker 0 (Select (SelectCh None SnapShouldStop))) snapshot_queued) =
     [(0, reqS, None)]
   \<and> SnapshotStatusChan (step (Worker 0 (Select (SelectCh None SnapShouldStop)))
       snapshot_queued) = []"
proof -
  have d1: "snapshot_dequeue (Worker 0 (Select (SelectCh (Some send_failed) SnapPublish)))
      snapshot_queued = Some (0, reqS, Some send_failed, SnapPublish)"
    and d2: "snapshot_dequeue (Worker 0 (Select (SelectCh None SnapShouldStop))) snapshot_queued =
      Some (0, reqS, None, SnapShouldStop)"
    and e: "SnapshotStatusChan snapshot_queued = []" "stream_sends snapshot_queued = []"
    by (simp_all add: snapshot_dequeue_def snapshot_queued_def eval_defs dial_ok_def reqS_def)
  show ?thesis
    using snapshot_status_unless_stopped
        [of "Worker 0 (Select (SelectCh (Some send_failed) SnapPublish))" snapshot_queued]
      snapshot_status_unless_stopped
        [of "Worker 0 (Select (SelectCh None SnapShouldStop))" snapshot_queued]
    by (simp add: d1 d2 e)
qed

text \<open>
  The claim as stated fails: the snapshot \<open>reqS\<close> is taken from the channel and
  sent successfully, the inner \<open>select\<close> sees the stop signal, and no status is
  published.
\<close>

theorem snapshot_status_skipped_on_stop:
  "stream_sends (run [Send reqS None, Worker 0 dial_ok,
       Worker 0 (Select (SelectCh None SnapShouldStop))] NewRaftTransport) = [(0, reqS, None)]
   \<and> SnapshotStatusChan (run [Send reqS None, Worker 0 dial_ok,
       Worker 0 (Select (SelectCh None SnapShouldStop))] NewRaftTransport) = []
   \<and> Type (Message reqS) = MsgSnap"
  by (simp add: eval_defs dial_ok_def reqS_def)

subsection \<open>C5: the table entry is removed when a worker ends\<close>




subsection \<open>C6: a request for a store without a handler\<close>

text \<open>
  C6, as amended. When the read loop reaches a request whose destination store
  has no registered handler, it hands the request to no handler, reads no
  further and returns the error \<open>Unable to proxy message to node\<close> with the
  request's addressee, which goes to \<open>errCh\<close>. \<open>RaftMessage\<close> ends the session
  with that error when its \<open>select\<close> takes the value from \<open>errCh\<close>; when the
  \<open>select\<close> takes the drain signal it returns the result of
  \<open>stream.SendAndClose\<close> instead and the error is lost. When the store has a
  handler and the handler returns an error, the loop returns the handler's
  error and \<open>RaftMessage\<close> treats it in the same way. (If the task runner
  refused to start the read loop, nothing is read and \<open>RaftMessage\<close> returns the
  task runner's error.)
\<close>

theorem unknown_store_ends_session:
  assumes "fst (read_loop pre) = None"
  shows "(handlers t (StoreID (ToReplica req)) = None \<longrightarrow>
            read_loop (pre @ (t, RecvReq req) # rest) =
              (Some (Errorf ''Unable to proxy message to node: %d'' (To (Message req))),
               snd (read_loop pre))
          \<and> RaftMessage RunTask (pre @ (t, RecvReq req) # rest) taken SendAndClose =
              (case RunTask of
                 Some err \<Rightarrow> Return (Some err) []
               | None \<Rightarrow>
                   (case taken of
                      CaseErrCh \<Rightarrow>
                        Return (Some (Errorf ''Unable to proxy message to node: %d''
                                        (To (Message req)))) []
                    | CaseShouldDrain \<Rightarrow> Return SendAndClose [RaftMessageResponse])))
       \<and> (\<forall>handler err.
            handlers t (StoreID (ToReplica req)) = Some handler \<and> handler req = Some err \<longrightarrow>
              read_loop (pre @ (t, RecvReq req) # rest) = (Some err, snd (read_loop pre) @ [req])
            \<and> RaftMessage RunTask (pre @ (t, RecvReq req) # rest) taken SendAndClose =
                (case RunTask of
                   Some err' \<Rightarrow> Return (Some err') []
                 | None \<Rightarrow>
                     (case taken of
                        CaseErrCh \<Rightarrow> Return (Some err) []
                      | CaseShouldDrain \<Rightarrow> Return SendAndClose [RaftMessageResponse])))"
  by (auto simp: read_loop_append [OF assms] RaftMessage_def
      split: option.splits select_RaftMessage.splits)

theorem unknown_store_ends_session_witness:
  "fst (read_loop [(Listen 1 (\<lambda>req. None) NewRaftTransport, RecvReq reqA)]) = None
   \<and> handlers (Listen 1 (\<lambda>req. None) NewRaftTransport) (StoreID (ToReplica reqB)) = None
   \<and> read_loop ([(Listen 1 (\<lambda>req. None) NewRaftTransport, RecvReq reqA)] @
        (Listen 1 (\<lambda>req. None) NewRaftTransport, RecvReq reqB) # []) =
       (Some (Errorf ''Unable to proxy message to node: %d'' 2), [reqA])
   \<and> RaftMessage None ([(Listen 1 (\<lambda>req. None) NewRaftTransport, RecvReq reqA)] @
        (Listen 1 (\<lambda>req. None) NewRaftTransport, RecvReq reqB) # []) CaseErrCh None =
       Return (Some (Errorf ''Unable to proxy message to node: %d'' 2)) []
   \<and> handlers (Listen 2 (\<lambda>req. Some boom) NewRaftTransport) (StoreID (ToReplica reqB)) =
       Some (\<lambda>req. Some boom)
   \<and> RaftMessage None ([(Listen 1 (\<lambda>req. None) NewRaftTransport, RecvReq reqA)] @
        (Listen 2 (\<lambda>req. Some boom) NewRaftTransport, RecvReq reqB) # []) CaseErrCh None =
       Return (Some boom) []"
proof -
  have pre: "fst (read_loop [(Listen 1 (\<lambda>req. None) NewRaftTransport, RecvReq reqA)]) = None"
    by (simp add: Listen_def reqA_def dest1_def)
  have hs: "snd (read_loop [(Listen 1 (\<lambda>req. None) NewRaftTransport, RecvReq reqA)]) = [reqA]"
    by (simp add: Listen_def reqA_def dest1_def)
  have no: "handlers (Listen 1 (\<lambda>req. None) NewRaftTransport) (StoreID (ToReplica reqB)) = None"
    by (simp add: Listen_def NewRaftTransport_def reqB_def dest2_def)
  have yes: "handlers (Listen 2 (\<lambda>req. Some boom) NewRaftTransport) (StoreID (ToReplica reqB)) =
       Some (\<lambda>req. Some boom)"
    by (simp add: Listen_def reqB_def dest2_def)
  have to: "To (Message reqB) = 2"
    by (simp add: reqB_def)
  from unknown_store_ends_session [OF pre, of "Listen 1 (\<lambda>req. None) NewRaftTransport" reqB "[]"
      None CaseErrCh None] no
  have A: "read_loop ([(Listen 1 (\<lambda>req. None) NewRaftTransport, RecvReq reqA)] @
        (Listen 1 (\<lambda>req. None) NewRaftTransport, RecvReq reqB) # []) =
       (Some (Errorf ''Unable to proxy message to node: %d'' 2), [reqA])"
    and A': "RaftMessage None ([(Listen 1 (\<lambda>req. None) NewRaftTransport, RecvReq reqA)] @
        (Listen 1 (\<lambda>req. None) NewRaftTransport, RecvReq reqB) # []) CaseErrCh None =
       Return (Some (Errorf ''Unable to proxy message to node: %d'' 2)) []"
    unfolding hs to by (simp_all only: option.case select_RaftMessage.case simp_thms)
  from unknown_store_ends_session [OF pre, of "Listen 2 (\<lambda>req. Some boom) NewRaftTransport" reqB "[]"
      None CaseErrCh None] yes
  have B: "RaftMessage None ([(Listen 1 (\<lambda>req. None) NewRaftTransport, RecvReq reqA)] @
        (Listen 2 (\<lambda>req. Some boom) NewRaftTransport, RecvReq reqB) # []) CaseErrCh None =
       Return (Some boom) []"
    by (simp only: option.case select_RaftMessage.case simp_thms)
  from pre no A A' yes B show ?thesis
    by (intro conjI)
qed

text \<open>
  The claim as stated fails: a request for store 2, which has no handler,
  makes the read loop return the error, the \<open>select\<close> takes the drain signal,
  and \<open>RaftMessage\<close> returns nil after an ordinary response.
\<close>

theorem unknown_store_error_lost_on_drain:
  "handlers NewRaftTransport (StoreID (ToReplica reqB)) = None
   \<and> fst (read_loop [(NewRaftTransport, RecvReq reqB)]) =
       Some (Errorf ''Unable to proxy message to node: %d'' 2)
   \<and> RaftMessage None [(NewRaftTransport, RecvReq reqB)] CaseShouldDrain None =
       Return None [RaftMessageResponse]"
  by (simp add: RaftMessage_def NewRaftTransport_def reqB_def dest2_def)

subsection \<open>C7: the capacity of a queue\<close>

text \<open>
  C7. \<open>raftSendBufferSize\<close> is 100. Starting in a state whose table has no
  channel for a key, with calls of \<open>SendAsync\<close> for that key only and no step of
  a worker in between, the first 100 calls return true and every later call
  returns false; the channel created by the first call holds the first 100
  requests, and only these were enqueued.
\<close>

theorem queue_capacity_100:
  assumes "queue_of t b d = None" and "xs \<noteq> []"
    and "\<forall>x \<in> set xs. ToReplica (fst x) = d \<and> (Type (Message (fst x)) = MsgSnap) = b"
  shows "raftSendBufferSize = 100
       \<and> SendAsync_returns (map (\<lambda>x. Send (fst x) (snd x)) xs) t =
           replicate (min (length xs) 100) True @ replicate (length xs - 100) False
       \<and> chans (run (map (\<lambda>x. Send (fst x) (snd x)) xs) t) (nchans t) = take 100 (map fst xs)
       \<and> enqueued (run (map (\<lambda>x. Send (fst x) (snd x)) xs) t) =
           enqueued t @ map (Pair (nchans t)) (take 100 (map fst xs))"
  using SendAsync_seq_new [OF assms] by (simp add: raftSendBufferSize_def)

theorem queue_capacity_100_witness:
  "SendAsync_returns (map (\<lambda>x. Send (fst x) (snd x)) (replicate 101 (reqA, None))) NewRaftTransport
     = replicate 100 True @ [False]
   \<and> chans (run (map (\<lambda>x. Send (fst x) (snd x)) (replicate 101 (reqA, None))) NewRaftTransport) 0
     = replicate 100 reqA"
proof -
  have 1: "queue_of NewRaftTransport False dest1 = None"
    by (simp add: queue_of_def NewRaftTransport_def)
  have 0: "replicate 101 (reqA, None :: error option) \<noteq> []"
    by simp
  have 2: "\<forall>x \<in> set (replicate 101 (reqA, None :: error option)).
      ToReplica (fst x) = dest1 \<and> (Type (Message (fst x)) = MsgSnap) = False"
    by (simp add: reqA_def)
  show ?thesis
    using queue_capacity_100 [OF 1 0 2]
    by (simp add: NewRaftTransport_def)
qed

subsection \<open>C8: the drain signal\<close>




subsection \<open>C9: the handler registry\<close>

text \<open>
  C9. After \<open>Listen S H\<close> the handler registered for \<open>S\<close> is \<open>H\<close>, whatever was
  registered before; after \<open>Stop S\<close> no handler is registered for \<open>S\<close>, and
  \<open>Stop\<close> on a store without a handler leaves the registry as it is; neither
  operation changes the entry of a store other than \<open>S\<close>.
\<close>

theorem Listen_Stop_registry:
  "handlers (Listen S H t) S = Some H
   \<and> handlers (Stop S t) S = None
   \<and> (handlers t S = None \<longrightarrow> handlers (Stop S t) = handlers t)
   \<and> (\<forall>S'. S' \<noteq> S \<longrightarrow>
         handlers (Listen S H t) S' = handlers t S'
       \<and> handlers (Stop S t) S' = handlers t S')"
  by (auto simp: Listen_def Stop_def)

theorem Listen_Stop_registry_witness:
  "handlers NewRaftTransport 1 = None
   \<and> handlers (Stop 1 NewRaftTransport) = handlers NewRaftTransport
   \<and> (2::int) \<noteq> 1
   \<and> handlers (Listen 1 (\<lambda>req. None) NewRaftTransport) 2 = handlers NewRaftTransport 2
   \<and> handlers (Stop 1 NewRaftTransport) 2 = handlers NewRaftTransport 2"
  using Listen_Stop_registry [of 1 "\<lambda>req. None" NewRaftTransport]
  by (simp add: NewRaftTransport_def)

subsection \<open>C10: a worker that could not be started\<close>

text \<open>
  C10. In a state of a run whose table has no channel for the request's key, a
  call of \<open>SendAsync\<close> that the task runner refuses with \<open>err\<close> calls \<open>onError\<close>
  with \<open>err\<close> and the destination before it returns, starts no worker, and still
  places the request on the new channel and returns true. After any further
  steps the table still holds that channel for the key and the channel has no
  worker, so it holds everything that was ever enqueued on it; every later call
  of \<open>SendAsync\<close> for the key creates no channel, starts no worker, does not
  call \<open>onError\<close>, and returns true exactly while the channel holds fewer than
  \<open>raftSendBufferSize\<close> requests.
\<close>

theorem spawn_failure_keeps_queue:
  assumes t: "t = run es NewRaftTransport"
    and absent: "queue_of t (Type (Message req) = MsgSnap) (ToReplica req) = None"
    and t2: "t2 = run es' (snd (SendAsync req (Some err) t))"
    and key: "ToReplica req' = ToReplica req"
      "(Type (Message req') = MsgSnap) = (Type (Message req) = MsgSnap)"
  shows "fst (SendAsync req (Some err) t)
       \<and> onError_calls (snd (SendAsync req (Some err) t)) =
           onError_calls t @ [(Some err, ToReplica req)]
       \<and> workers (snd (SendAsync req (Some err) t)) = workers t
       \<and> queue_of t2 (Type (Message req) = MsgSnap) (ToReplica req) = Some (nchans t)
       \<and> workers t2 (nchans t) = None
       \<and> chans t2 (nchans t) = enqueued_on (nchans t) t2
       \<and> fst (SendAsync req' rt' t2) = (length (chans t2 (nchans t)) < raftSendBufferSize)
       \<and> workers (snd (SendAsync req' rt' t2)) = workers t2
       \<and> onError_calls (snd (SendAsync req' rt' t2)) = onError_calls t2
       \<and> nchans (snd (SendAsync req' rt' t2)) = nchans t2"
proof -
  let ?b = "Type (Message req) = MsgSnap" and ?d = "ToReplica req"
  let ?t1 = "snd (SendAsync req (Some err) t)"
  note f = SendAsync_new_fields [OF absent, of "Some err"]
  have inv: "invariant t"
    unfolding t by (rule invariant_run [OF invariant_New])
  then have inv1: "invariant ?t1"
    using invariant_step [of t "Send req (Some err)"] by simp
  have inv2: "invariant t2"
    unfolding t2 by (rule invariant_run [OF inv1])
  from inv have refs: "refs_ok t" and fifo: "fifo_ok t" by (simp_all add: invariant_def)
  have w0: "workers t (nchans t) = None"
    by (rule workers_fresh [OF refs])
  have "sent_on (nchans t) ?t1 = sent_on (nchans t) t"
    by (rule sent_on_cong) (rule f)
  with fifo_ok_fresh(2) [OF fifo, of "nchans t"] have s1: "sent_on (nchans t) ?t1 = []"
    by simp
  have "orphan (nchans t) ?b ?d ?t1"
    by (simp add: orphan_def queue_of_SendAsync_new [OF absent] f w0 s1)
  then have "orphan (nchans t) ?b ?d t2"
    unfolding t2 by (rule orphan_run [OF inv1])
  then have q2: "queue_of t2 ?b ?d = Some (nchans t)" and w2: "workers t2 (nchans t) = None"
    and s2: "sent_on (nchans t) t2 = []" by (simp_all add: orphan_def)
  from inv2 have "sent_on (nchans t) t2 @ chans t2 (nchans t) = enqueued_on (nchans t) t2"
    by (simp add: invariant_def fifo_ok_def)
  with s2 have c2: "chans t2 (nchans t) = enqueued_on (nchans t) t2" by simp
  from q2 have q2': "queue_of t2 (Type (Message req') = MsgSnap) (ToReplica req') = Some (nchans t)"
    by (simp only: key)
  note g = SendAsync_existing_fields [OF q2', of rt']
  show ?thesis
    by (simp add: f q2 w2 c2 [symmetric] g)
qed

theorem spawn_failure_keeps_queue_witness:
  "queue_of NewRaftTransport False dest1 = None
   \<and> fst (SendAsync reqA (Some stopping) NewRaftTransport)
   \<and> onError_calls (snd (SendAsync reqA (Some stopping) NewRaftTransport)) =
       [(Some stopping, dest1)]
   \<and> workers (snd (SendAsync reqA (Some stopping) NewRaftTransport)) 0 = None
   \<and> fst (SendAsync reqA None (snd (SendAsync reqA (Some stopping) NewRaftTransport)))
   \<and> workers (snd (SendAsync reqA None (snd (SendAsync reqA (Some stopping) NewRaftTransport)))) 0
       = None"
proof -
  have absent: "queue_of NewRaftTransport (Type (Message reqA) = MsgSnap) (ToReplica reqA) = None"
    by (simp add: queue_of_def NewRaftTransport_def)
  have t: "NewRaftTransport = run [] NewRaftTransport" by simp
  have t2: "snd (SendAsync reqA (Some stopping) NewRaftTransport) =
      run [] (snd (SendAsync reqA (Some stopping) NewRaftTransport))" by simp
  have c: "chans (snd (SendAsync reqA (Some stopping) NewRaftTransport)) 0 = [reqA]"
    by (simp add: eval_defs reqA_def)
  have e: "onError_calls NewRaftTransport = []" "nchans NewRaftTransport = 0"
    "workers NewRaftTransport = Map.empty" "ToReplica reqA = dest1"
    by (simp_all add: NewRaftTransport_def reqA_def)
  have a0: "queue_of NewRaftTransport False dest1 = None"
    by (simp add: queue_of_def NewRaftTransport_def)
  from spawn_failure_keeps_queue [OF t absent t2 refl refl, of None] a0
  show ?thesis
    by (simp add: e c raftSendBufferSize_def)
qed

end
